theory Spec2Isabelle
  imports Main "HOL-Library.Word"
begin

unbundle bit_operations_syntax

section \<open>Bytes, buffers and text\<close>

text \<open>
  A Node \<open>Buffer\<close> is a sequence of unsigned bytes. A JavaScript string is a sequence
  of code units; here a string is a list of 8-bit characters, the code units
  \<open>U+0000\<close> to \<open>U+00FF\<close>. That covers every string this program parses: the parser
  decodes each payload with the \<open>'ascii'\<close> encoding, which yields code units below
  \<open>0x80\<close> only. Code units above \<open>0xFF\<close> are outside the model. Offsets and sizes are
  non-negative integers.
\<close>

type_synonym byte = "8 word"
type_synonym buffer = "byte list"

abbreviation LF :: char where "LF \<equiv> CHR 0x0A"
abbreviation CR :: char where "CR \<equiv> CHR 0x0D"
abbreviation BACKSLASH :: char where "BACKSLASH \<equiv> CHR 0x5C"
abbreviation DQUOTE :: char where "DQUOTE \<equiv> CHR 0x22"

text \<open>
  What the code can raise or report. \<open>RangeError\<close> is Node's error for a buffer
  read or write outside the buffer or outside the value range; \<open>MissingMarker\<close> is
  the \<open>Error\<close> thrown by the parser's constructor, with the marker that was read.
  The other three are the messages that the protocol operations hand to their callback
  as the error argument.
\<close>

record address =
  ip :: string
  port :: nat

datatype error =
    RangeError
  | MissingMarker nat
  | SourceMismatch address address
  | UnexpectedCommand string string
  | ChallengeMismatch string "string option"

subsection \<open>The Buffer operations the code calls\<close>

text \<open>
  \<open>buf.slice(start, end)\<close> for non-negative indices: both ends are clamped to the
  length of the buffer, and the result is empty when \<open>end \<le> start\<close>.
\<close>

definition buf_slice :: "buffer \<Rightarrow> nat \<Rightarrow> nat \<Rightarrow> buffer" where
  "buf_slice b s e = take (e - s) (drop s b)"

text \<open>
  Decoding with \<open>'ascii'\<close> clears the highest bit of every byte and reads the rest
  as one character per byte.
\<close>

definition ascii_char :: "byte \<Rightarrow> char" where
  "ascii_char b = char_of (unat (b AND 0x7F))"

definition toString_ascii :: "buffer \<Rightarrow> string" where
  "toString_ascii b = map ascii_char b"

text \<open>\<open>buf.toString('ascii', start)\<close>: the text from \<open>start\<close> to the end.\<close>

definition toString_ascii_from :: "buffer \<Rightarrow> nat \<Rightarrow> string" where
  "toString_ascii_from b start = toString_ascii (drop start b)"

text \<open>The integer reads raise \<open>RangeError\<close> when the bytes asked for are not all there.\<close>

definition readUInt8 :: "buffer \<Rightarrow> nat \<Rightarrow> error + nat" where
  "readUInt8 b off = (if off + 1 \<le> length b then Inr (unat (b ! off)) else Inl RangeError)"

definition readUInt16BE :: "buffer \<Rightarrow> nat \<Rightarrow> error + nat" where
  "readUInt16BE b off =
     (if off + 2 \<le> length b
      then Inr (unat (b ! off) * 256 + unat (b ! (off + 1)))
      else Inl RangeError)"

definition readUInt32LE :: "buffer \<Rightarrow> nat \<Rightarrow> error + nat" where
  "readUInt32LE b off =
     (if off + 4 \<le> length b
      then Inr (unat (b ! off) + unat (b ! (off + 1)) * 2 ^ 8
                + unat (b ! (off + 2)) * 2 ^ 16 + unat (b ! (off + 3)) * 2 ^ 24)
      else Inl RangeError)"

section \<open>The message parser (lib/message-parser.js)\<close>

record parser =
  msg :: buffer
  offset :: nat

text \<open>
  The constructor. With \<open>validateHeader\<close> it reads the first four bytes as a
  little-endian 32-bit number, moves the offset past them and throws unless the number
  is \<open>0xFFFFFFFF\<close>. A throwing constructor yields no parser object.
\<close>

definition Q3MessageParser :: "buffer \<Rightarrow> bool \<Rightarrow> error + parser" where
  "Q3MessageParser m validateHeader =
     (if validateHeader
      then (case readUInt32LE m 0 of
              Inl e \<Rightarrow> Inl e
            | Inr marker \<Rightarrow>
                if marker \<noteq> 0xFFFFFFFF then Inl (MissingMarker marker)
                else Inr \<lparr>msg = m, offset = 0 + 4\<rparr>)
      else Inr \<lparr>msg = m, offset = 0\<rparr>)"

text \<open>\<open>str.indexOf(c)\<close>: the first position of \<open>c\<close>, \<open>None\<close> standing for \<open>-1\<close>.\<close>

fun indexOf :: "string \<Rightarrow> char \<Rightarrow> nat option" where
  "indexOf [] c = None"
| "indexOf (x # xs) c =
     (if x = c then Some 0 else (case indexOf xs c of None \<Rightarrow> None | Some i \<Rightarrow> Some (Suc i)))"

definition readLine :: "parser \<Rightarrow> string \<times> parser" where
  "readLine p =
     (let str = toString_ascii_from (msg p) (offset p) in
      case indexOf str LF of
        Some nextLineIdx \<Rightarrow>
          (take nextLineIdx str, p\<lparr>offset := offset p + (nextLineIdx + 1)\<rparr>)
      | None \<Rightarrow> (str, p\<lparr>offset := offset p + length str\<rparr>))"

definition readChars :: "parser \<Rightarrow> nat \<Rightarrow> string \<times> parser" where
  "readChars p numBytes =
     (let str = toString_ascii (buf_slice (msg p) (offset p) (offset p + numBytes))
      in (str, p\<lparr>offset := offset p + numBytes\<rparr>))"

definition skip :: "parser \<Rightarrow> nat \<Rightarrow> bool \<times> parser" where
  "skip p numBytes =
     (if offset p + numBytes \<ge> length (msg p)
      then (False, p\<lparr>offset := length (msg p)\<rparr>)
      else (True, p\<lparr>offset := offset p + numBytes\<rparr>))"

text \<open>
  \<open>remainingBytes\<close> is a plain subtraction of JavaScript numbers: it is negative once
  \<open>readChars\<close> has moved the offset past the end.
\<close>

definition remainingBytes :: "parser \<Rightarrow> int" where
  "remainingBytes p = int (length (msg p)) - int (offset p)"

text \<open>
  The loop of \<open>splitWithStride\<close>. Nothing in the code bounds the number of rounds, so
  the loop is a partial function: \<open>None\<close> is the run that never leaves the loop.
  \<open>numChunks = 0\<close> means no limit.
\<close>

partial_function (option) splitWithStride_loop ::
  "nat \<Rightarrow> nat \<Rightarrow> nat \<Rightarrow> buffer list \<Rightarrow> parser \<Rightarrow> (buffer list \<times> parser) option" where
  "splitWithStride_loop chunkSize stride numChunks chunks p =
     (if offset p + chunkSize < length (msg p) \<and> (numChunks = 0 \<or> length chunks < numChunks)
      then splitWithStride_loop chunkSize stride numChunks
             (chunks @ [buf_slice (msg p) (offset p) (offset p + chunkSize)])
             (p\<lparr>offset := offset p + chunkSize + stride\<rparr>)
      else Some (chunks, p))"

declare splitWithStride_loop.simps [code]

definition splitWithStride :: "parser \<Rightarrow> nat \<Rightarrow> nat \<Rightarrow> nat \<Rightarrow> (buffer list \<times> parser) option" where
  "splitWithStride p chunkSize stride numChunks =
     splitWithStride_loop chunkSize stride numChunks [] p"

section \<open>The codec (lib/jkutils.js)\<close>

subsection \<open>JavaScript strings, numbers and objects\<close>

text \<open>
  \<open>str.split(sep)\<close> with a one-character separator: the pieces between the
  separators, in order; a string without separator is its own single piece.
\<close>

fun split_from :: "char \<Rightarrow> string \<Rightarrow> string \<Rightarrow> string list" where
  "split_from sep cur [] = [cur]"
| "split_from sep cur (c # cs) =
     (if c = sep then cur # split_from sep [] cs else split_from sep (cur @ [c]) cs)"

definition js_split :: "string \<Rightarrow> char \<Rightarrow> string list" where
  "js_split s sep = split_from sep [] s"

text \<open>\<open>array.join(sep)\<close> on an array of strings.\<close>

fun js_join :: "string list \<Rightarrow> char \<Rightarrow> string" where
  "js_join [] sep = []"
| "js_join [t] sep = t"
| "js_join (t # ts) sep = t @ sep # js_join ts sep"

text \<open>
  \<open>str.toLowerCase()\<close> on code units up to \<open>U+00FF\<close>: the letters \<open>A\<close> to \<open>Z\<close> move
  to \<open>a\<close> to \<open>z\<close>, and the Latin-1 capitals \<open>U+00C0\<close> to \<open>U+00DE\<close>, without the
  multiplication sign \<open>U+00D7\<close>, move up by \<open>0x20\<close> as well; every other code unit
  stays.
\<close>

definition toLowerCase_char :: "char \<Rightarrow> char" where
  "toLowerCase_char c =
     (let n = (of_char c :: nat) in
      if (0x41 \<le> n \<and> n \<le> 0x5A) \<or> (0xC0 \<le> n \<and> n \<le> 0xDE \<and> n \<noteq> 0xD7)
      then char_of (n + 0x20) else c)"

definition toLowerCase :: "string \<Rightarrow> string" where
  "toLowerCase s = map toLowerCase_char s"

text \<open>
  A plain object \<open>{}\<close> used as a dictionary of strings. The assignment
  \<open>obj[key] = value\<close> stores the property, except under the key \<open>__proto__\<close>: that
  name is the prototype accessor every plain object inherits, and its setter ignores a
  string value, so nothing is stored.
\<close>

type_synonym object = "string \<rightharpoonup> string"

definition obj_assign :: "object \<Rightarrow> string \<Rightarrow> string \<Rightarrow> object" where
  "obj_assign obj key v = (if key = ''__proto__'' then obj else obj(key \<mapsto> v))"

text \<open>
  The unary plus \<open>+n\<close> on a string, for the strings of a dotted quad: a run of decimal
  digits is its value and the empty string is 0. Every other text is \<open>None\<close> here, which
  stands for \<open>NaN\<close>; the signed, fractional, exponent and hexadecimal literals that
  JavaScript also accepts are outside this model. A missing array element
  (\<open>undefined\<close>) is \<open>None\<close> as well.
\<close>

definition digit_value :: "char \<Rightarrow> nat option" where
  "digit_value c =
     (let n = (of_char c :: nat) in if 0x30 \<le> n \<and> n \<le> 0x39 then Some (n - 0x30) else None)"

fun decimal_value :: "nat \<Rightarrow> string \<Rightarrow> nat option" where
  "decimal_value acc [] = Some acc"
| "decimal_value acc (c # cs) =
     (case digit_value c of None \<Rightarrow> None | Some d \<Rightarrow> decimal_value (acc * 10 + d) cs)"

definition to_number :: "string \<Rightarrow> int option" where
  "to_number s = map_option int (decimal_value 0 s)"

definition element :: "'a option list \<Rightarrow> nat \<Rightarrow> 'a option" where
  "element xs i = (if i < length xs then xs ! i else None)"

text \<open>
  The bitwise operators work on 32-bit signed integers: \<open>ToInt32\<close> wraps its operand
  into \<open>[-2^31, 2^31)\<close>, with \<open>NaN\<close> and \<open>undefined\<close> becoming 0.
\<close>

definition ToInt32 :: "int option \<Rightarrow> int" where
  "ToInt32 v = (case v of None \<Rightarrow> 0 | Some x \<Rightarrow> (x + 2 ^ 31) mod 2 ^ 32 - 2 ^ 31)"

definition shift_left :: "int option \<Rightarrow> nat \<Rightarrow> int" where
  "shift_left v n = ToInt32 (Some (ToInt32 v * 2 ^ (n mod 32)))"

definition shift_right :: "int option \<Rightarrow> nat \<Rightarrow> int" where
  "shift_right v n = ToInt32 v div 2 ^ (n mod 32)"

definition bit_or :: "int \<Rightarrow> int \<Rightarrow> int" where
  "bit_or a b = ToInt32 (Some a) OR ToInt32 (Some b)"

definition bit_and :: "int \<Rightarrow> int \<Rightarrow> int" where
  "bit_and a b = ToInt32 (Some a) AND ToInt32 (Some b)"

text \<open>
  The integer writes raise \<open>RangeError\<close> for a value outside the unsigned range of
  the field or a position outside the buffer, and store the bytes high byte first.
\<close>

definition writeUInt32BE :: "buffer \<Rightarrow> int \<Rightarrow> nat \<Rightarrow> error + buffer" where
  "writeUInt32BE b v off =
     (if v < 0 \<or> 0xFFFFFFFF < v \<or> length b < off + 4 then Inl RangeError
      else Inr (b[off := word_of_int (v div 2 ^ 24), off + 1 := word_of_int (v div 2 ^ 16),
                  off + 2 := word_of_int (v div 2 ^ 8), off + 3 := word_of_int v]))"

definition writeUInt16BE :: "buffer \<Rightarrow> int \<Rightarrow> nat \<Rightarrow> error + buffer" where
  "writeUInt16BE b v off =
     (if v < 0 \<or> 0xFFFF < v \<or> length b < off + 2 then Inl RangeError
      else Inr (b[off := word_of_int (v div 2 ^ 8), off + 1 := word_of_int v]))"

text \<open>The decimal text of a number, as \<open>join\<close> produces it for the bytes of a buffer.\<close>

fun string_of_nat :: "nat \<Rightarrow> string" where
  "string_of_nat n =
     (if n < 10 then [char_of (0x30 + n)]
      else string_of_nat (n div 10) @ [char_of (0x30 + n mod 10)])"

declare string_of_nat.simps [simp del]

subsection \<open>parseInfostring, encodeServer, decodeServer\<close>

function parseInfostring_loop :: "string list \<Rightarrow> nat \<Rightarrow> object \<Rightarrow> object" where
  "parseInfostring_loop toks i pairs =
     (if int i < int (length toks) - 1
      then parseInfostring_loop toks (i + 2)
             (obj_assign pairs (toLowerCase (toks ! i)) (toks ! (i + 1)))
      else pairs)"
  by pat_completeness auto
termination
  by (relation "measure (\<lambda>(toks, i, pairs). length toks - i)") auto

declare parseInfostring_loop.simps [simp del]

definition parseInfostring :: "string \<Rightarrow> object" where
  "parseInfostring info0 =
     (let info = (case info0 of c # rest \<Rightarrow> if c = BACKSLASH then rest else info0
                  | [] \<Rightarrow> info0);
          toks = js_split info BACKSLASH
      in parseInfostring_loop toks 0 Map.empty)"

definition encodeServer :: "string \<Rightarrow> int \<Rightarrow> error + buffer" where
  "encodeServer ipText portNumber =
     (let buffer = replicate 6 (0 :: byte);
          offset = 0;
          octets = map to_number (js_split ipText (CHR ''.''))
      in case writeUInt32BE buffer
                (bit_or (bit_or (bit_or (shift_left (element octets 0) 24)
                                        (shift_left (element octets 1) 16))
                                (shift_left (element octets 2) 8))
                        (ToInt32 (element octets 3)))
                offset of
           Inl e \<Rightarrow> Inl e
         | Inr buffer \<Rightarrow>
             let offset = offset + 4 in
             writeUInt16BE buffer
               (bit_or (shift_right (Some portNumber) 8) (bit_and portNumber 0xFF)) offset)"

definition decodeServer :: "buffer \<Rightarrow> error + address" where
  "decodeServer buffer =
     (let ipText = js_join (map (\<lambda>b. string_of_nat (unat b)) (buf_slice buffer 0 4)) (CHR ''.'')
      in case readUInt16BE buffer 4 of
           Inl e \<Rightarrow> Inl e
         | Inr portNumber \<Rightarrow> Inr \<lparr>ip = ipText, port = portNumber\<rparr>)"

section \<open>The protocol operations (lib/jkcomms.js)\<close>

text \<open>
  What the socket hands to the callback of \<open>send\<close> for a datagram: the sender's
  address and the payload. The operations below are these callbacks, from the received
  datagram to what the caller's callback gets: \<open>Inl\<close> for an error argument or a thrown
  exception, \<open>Inr\<close> for a result. \<open>opts\<close> is the destination after name resolution.
\<close>

record reply =
  source :: address
  response :: buffer

text \<open>
  \<open>array.indexOf(value)\<close> compares with strict equality, under which a string and a
  number are never equal. The result is the first matching index, or -1.
\<close>

datatype jsvalue = JSString string | JSNumber nat

fun array_indexOf :: "jsvalue list \<Rightarrow> jsvalue \<Rightarrow> int" where
  "array_indexOf [] v = - 1"
| "array_indexOf (x # xs) v =
     (if x = v then 0
      else (let i = array_indexOf xs v in if i = - 1 then - 1 else i + 1))"

subsection \<open>getservers\<close>

text \<open>
  The \<open>do { parser.skip() } while (...)\<close> loop after the command: the condition looks the
  number read by \<open>readUInt8\<close> up in the array of the two strings \<open>'\0'\<close> and \<open>'\n'\<close>.
\<close>

function ctm_getservers_skip :: "parser \<Rightarrow> error + parser" where
  "ctm_getservers_skip parser =
     (case readUInt8 (msg (snd (skip parser 1))) (offset (snd (skip parser 1))) of
        Inl e \<Rightarrow> Inl e
      | Inr b \<Rightarrow>
          if array_indexOf [JSString [CHR 0x00], JSString [LF]] (JSNumber b) \<noteq> - 1
          then ctm_getservers_skip (snd (skip parser 1))
          else Inr (snd (skip parser 1)))"
  by pat_completeness auto
termination
  by (relation "{}") simp_all

declare ctm_getservers_skip.simps [simp del]

fun decode_chunks :: "buffer list \<Rightarrow> address list \<Rightarrow> error + address list" where
  "decode_chunks [] servers = Inr servers"
| "decode_chunks (chunk # chunks) servers =
     (case decodeServer chunk of
        Inl e \<Rightarrow> Inl e
      | Inr server \<Rightarrow> decode_chunks chunks (servers @ [server]))"

text \<open>The outer \<open>option\<close> is \<open>None\<close> when \<open>splitWithStride\<close> does not return.\<close>

definition ctm_getservers_reply ::
  "bool \<Rightarrow> address \<Rightarrow> reply \<Rightarrow> (error + address list) option" where
  "ctm_getservers_reply strictMode opts res =
     (if (ip (source res) \<noteq> ip opts \<or> port (source res) \<noteq> port opts) \<and> strictMode
      then Some (Inl (SourceMismatch (source res) opts))
      else
        case Q3MessageParser (response res) True of
          Inl e \<Rightarrow> Some (Inl e)
        | Inr parser \<Rightarrow>
            let expectedCommand = ''getserversResponse'' in
            case readChars parser (length expectedCommand) of (command, parser) \<Rightarrow>
              if command \<noteq> expectedCommand \<and> strictMode
              then Some (Inl (UnexpectedCommand expectedCommand command))
              else
                case ctm_getservers_skip parser of
                  Inl e \<Rightarrow> Some (Inl e)
                | Inr parser \<Rightarrow>
                    (case splitWithStride parser 6 1 0 of
                       None \<Rightarrow> None
                     | Some (chunks, parser) \<Rightarrow>
                         (case decode_chunks chunks [] of
                            Inl e \<Rightarrow> Some (Inl e)
                          | Inr servers \<Rightarrow>
                              (case readLine parser of (sentinel, parser) \<Rightarrow>
                                 Some (Inr servers)))))"

subsection \<open>getinfo\<close>

text \<open>\<open>opts.challenge || 'jkutils-query'\<close>: a missing or empty challenge is the default.\<close>

definition request_challenge :: "string option \<Rightarrow> string" where
  "request_challenge c =
     (case c of None \<Rightarrow> ''jkutils-query''
      | Some s \<Rightarrow> if s = [] then ''jkutils-query'' else s)"

definition cts_getinfo_reply ::
  "bool \<Rightarrow> address \<Rightarrow> string \<Rightarrow> reply \<Rightarrow> error + (address \<times> object)" where
  "cts_getinfo_reply strictMode opts challenge res =
     (if (ip (source res) \<noteq> ip opts \<or> port (source res) \<noteq> port opts) \<and> strictMode
      then Inl (SourceMismatch (source res) opts)
      else
        case Q3MessageParser (response res) True of
          Inl e \<Rightarrow> Inl e
        | Inr parser \<Rightarrow>
            (case readLine parser of (command, parser) \<Rightarrow>
               if command \<noteq> ''infoResponse'' \<and> strictMode
               then Inl (UnexpectedCommand ''infoResponse'' command)
               else
                 (case readLine parser of (infoString, parser) \<Rightarrow>
                    let info = parseInfostring infoString in
                    if info ''challenge'' \<noteq> Some challenge \<and> strictMode
                    then Inl (ChallengeMismatch challenge (info ''challenge''))
                    else Inr (source res, info))))"

subsection \<open>getstatus\<close>

record client =
  score :: string
  ping :: string
  name :: string

text \<open>
  The regular expression \<open>/^(?<score>\d+) (?<ping>\d+) "(?<name>.+)"$/\<close> applied to a
  line: \<open>\d\<close> is a decimal digit, \<open>.\<close> is any character but a line terminator, and
  \<open>$\<close> is the end of the line. A run of digits followed by a space can only be matched
  whole, and the name is everything between the quote after the second space and the
  quote that ends the line. The groups are the matched texts.
\<close>

definition is_digit :: "char \<Rightarrow> bool" where
  "is_digit c = (0x30 \<le> (of_char c :: nat) \<and> (of_char c :: nat) \<le> 0x39)"

definition is_line_terminator :: "char \<Rightarrow> bool" where
  "is_line_terminator c = (c = LF \<or> c = CR)"

definition client_regex_exec :: "string \<Rightarrow> client option" where
  "client_regex_exec line =
     (let score_text = takeWhile is_digit line; after_score = dropWhile is_digit line in
      if score_text = [] then None
      else case after_score of
        [] \<Rightarrow> None
      | c1 # after_space \<Rightarrow>
          if c1 \<noteq> CHR '' '' then None
          else
            let ping_text = takeWhile is_digit after_space;
                after_ping = dropWhile is_digit after_space in
            if ping_text = [] then None
            else case after_ping of
              [] \<Rightarrow> None
            | [c2] \<Rightarrow> None
            | c2 # c3 # quoted \<Rightarrow>
                if c2 \<noteq> CHR '' '' \<or> c3 \<noteq> DQUOTE then None
                else if quoted = [] then None
                else if last quoted \<noteq> DQUOTE then None
                else if butlast quoted = [] then None
                else if list_ex is_line_terminator (butlast quoted) then None
                else Some \<lparr>score = score_text, ping = ping_text, name = butlast quoted\<rparr>)"

text \<open>
  The loop \<open>while ((line = parser.readLine()))\<close>: it runs until \<open>readLine\<close> returns the
  empty string, and keeps the groups of every line that matches.
\<close>

function cts_getstatus_clients :: "parser \<Rightarrow> client list \<Rightarrow> client list \<times> parser" where
  "cts_getstatus_clients parser clients =
     (if fst (readLine parser) \<noteq> []
      then cts_getstatus_clients (snd (readLine parser))
             (case client_regex_exec (fst (readLine parser)) of
                Some groups \<Rightarrow> clients @ [groups]
              | None \<Rightarrow> clients)
      else (clients, snd (readLine parser)))"
  by pat_completeness auto
termination
proof (relation "measure (\<lambda>(parser, clients). length (msg parser) - offset parser)")
  show "wf (measure (\<lambda>(parser, clients). length (msg parser) - offset parser))"
    by simp
next
  fix parser :: parser and clients :: "client list"
  assume line: "fst (readLine parser) \<noteq> []"
  let ?str = "toString_ascii_from (msg parser) (offset parser)"
  have len: "length ?str = length (msg parser) - offset parser"
    by (simp add: toString_ascii_from_def toString_ascii_def)
  from line have "?str \<noteq> []"
    by (auto simp: readLine_def Let_def split: option.splits)
  with len have "offset parser < length (msg parser)"
    by (cases "offset parser < length (msg parser)") auto
  moreover have "offset parser < offset (snd (readLine parser))"
    using \<open>?str \<noteq> []\<close> by (auto simp: readLine_def Let_def split: option.splits)
  moreover have "msg (snd (readLine parser)) = msg parser"
    by (auto simp: readLine_def Let_def split: option.splits)
  ultimately show "((snd (readLine parser),
                     case client_regex_exec (fst (readLine parser)) of
                       None \<Rightarrow> clients | Some groups \<Rightarrow> clients @ [groups]),
                    parser, clients)
                   \<in> measure (\<lambda>(parser, clients). length (msg parser) - offset parser)"
    by simp
qed

declare cts_getstatus_clients.simps [simp del]

definition cts_getstatus_reply ::
  "bool \<Rightarrow> address \<Rightarrow> string \<Rightarrow> reply \<Rightarrow> error + (address \<times> object \<times> client list)" where
  "cts_getstatus_reply strictMode opts challenge res =
     (if (ip (source res) \<noteq> ip opts \<or> port (source res) \<noteq> port opts) \<and> strictMode
      then Inl (SourceMismatch (source res) opts)
      else
        case Q3MessageParser (response res) True of
          Inl e \<Rightarrow> Inl e
        | Inr parser \<Rightarrow>
            (case readLine parser of (command, parser) \<Rightarrow>
               if command \<noteq> ''statusResponse'' \<and> strictMode
               then Inl (UnexpectedCommand ''statusResponse'' command)
               else
                 (case readLine parser of (infoString, parser) \<Rightarrow>
                    let status = parseInfostring infoString in
                    if status ''challenge'' \<noteq> Some challenge \<and> strictMode
                    then Inl (ChallengeMismatch challenge (status ''challenge''))
                    else
                      (case cts_getstatus_clients parser [] of (clients, parser) \<Rightarrow>
                         Inr (source res, status, clients)))))"

subsection \<open>Example datagrams\<close>

text \<open>
  The reply of the spec's \<open>getservers\<close> example: the marker, \<open>getserversResponse\<close>, two
  NUL bytes, the records \<open>01 02 03 04 1F 90\<close> and \<open>05 06 07 08 4E 20\<close>, each followed
  by a backslash, and \<open>EOT\<close>.
\<close>

definition getservers_example :: buffer where
  "getservers_example =
     [0xFF, 0xFF, 0xFF, 0xFF,
      0x67, 0x65, 0x74, 0x73, 0x65, 0x72, 0x76, 0x65, 0x72, 0x73,
      0x52, 0x65, 0x73, 0x70, 0x6F, 0x6E, 0x73, 0x65,
      0x00, 0x00,
      0x01, 0x02, 0x03, 0x04, 0x1F, 0x90, 0x5C,
      0x05, 0x06, 0x07, 0x08, 0x4E, 0x20, 0x5C,
      0x45, 0x4F, 0x54]"

text \<open>The same records behind a single backslash, as dpmaster sends them.\<close>

definition getservers_dpmaster_example :: buffer where
  "getservers_dpmaster_example =
     [0xFF, 0xFF, 0xFF, 0xFF,
      0x67, 0x65, 0x74, 0x73, 0x65, 0x72, 0x76, 0x65, 0x72, 0x73,
      0x52, 0x65, 0x73, 0x70, 0x6F, 0x6E, 0x73, 0x65,
      0x5C,
      0x01, 0x02, 0x03, 0x04, 0x1F, 0x90, 0x5C,
      0x05, 0x06, 0x07, 0x08, 0x4E, 0x20, 0x5C,
      0x45, 0x4F, 0x54]"

text \<open>An \<open>infoResponse\<close> that echoes the default challenge.\<close>

definition getinfo_infostring :: string where
  "getinfo_infostring =
     BACKSLASH # ''challenge'' @ BACKSLASH # ''jkutils-query''
       @ BACKSLASH # ''hostname'' @ BACKSLASH # ''srv''"

definition getinfo_example :: buffer where
  "getinfo_example =
     [0xFF, 0xFF, 0xFF, 0xFF] @ map of_char (''infoResponse'' @ [LF] @ getinfo_infostring)"

text \<open>
  Two \<open>statusResponse\<close> datagrams with the client lines of the spec's example; the
  second has an empty line before them.
\<close>

definition player_line :: string where
  "player_line = ''12 55 '' @ DQUOTE # ''Player One'' @ [DQUOTE]"

definition malformed_line :: string where
  "malformed_line = ''notanumber 55 '' @ DQUOTE # ''X'' @ [DQUOTE]"

definition getstatus_infostring :: string where
  "getstatus_infostring = BACKSLASH # ''challenge'' @ BACKSLASH # ''jkutils-query''"

definition getstatus_example :: buffer where
  "getstatus_example =
     [0xFF, 0xFF, 0xFF, 0xFF]
       @ map of_char (''statusResponse'' @ [LF] @ getstatus_infostring @ [LF]
                      @ player_line @ [LF] @ malformed_line @ [LF])"

definition getstatus_empty_line_example :: buffer where
  "getstatus_empty_line_example =
     [0xFF, 0xFF, 0xFF, 0xFF]
       @ map of_char (''statusResponse'' @ [LF] @ getstatus_infostring @ [LF]
                      @ [LF] @ player_line @ [LF])"

definition server_address :: address where
  "server_address = \<lparr>ip = ''192.0.2.1'', port = 29070\<rparr>"

section \<open>The spec's words for decoding an infostring\<close>

text \<open>
  Follows the spec's words: consecutive tokens are paired as (key, value); a trailing
  unmatched token is dropped.
\<close>

fun pair_up :: "'a list \<Rightarrow> ('a \<times> 'a) list" where
  "pair_up (k # v # rest) = (k, v) # pair_up rest"
| "pair_up [k] = []"
| "pair_up [] = []"

text \<open>
  Follows the spec's words: keys are lower-cased. The capital letters and their small
  letters are written out; a character that is not a capital letter stays.
\<close>

definition capital_letters :: string where
  "capital_letters = ''ABCDEFGHIJKLMNOPQRSTUVWXYZ''"

definition small_letters :: string where
  "small_letters = ''abcdefghijklmnopqrstuvwxyz''"

definition lower_case_letter :: "char \<Rightarrow> char" where
  "lower_case_letter c =
     (case map_of (zip capital_letters small_letters) c of Some l \<Rightarrow> l | None \<Rightarrow> c)"

section \<open>Properties of the message parser\<close>

subsection \<open>The start marker\<close>

lemma unat_byte_less: "unat (x::byte) < 256"
  using unsigned_less [of x, where 'a = nat] by simp

lemma byte_FF_iff: "(x::byte) = 0xFF \<longleftrightarrow> unat x = 255"
  by (simp add: word_unat_eq_iff)

lemma le32_max:
  fixes a b c d :: byte
  shows "unat a + unat b * 2 ^ 8 + unat c * 2 ^ 16 + unat d * 2 ^ 24 = 0xFFFFFFFF
     \<longleftrightarrow> a = 0xFF \<and> b = 0xFF \<and> c = 0xFF \<and> d = 0xFF"
  using unat_byte_less [of a] unat_byte_less [of b] unat_byte_less [of c] unat_byte_less [of d]
  by (simp add: byte_FF_iff) arith

lemma four_bytes:
  assumes "4 \<le> length (m :: buffer)"
  obtains a b c d r where "m = a # b # c # d # r"
proof -
  from assms obtain a m1 where "m = a # m1" by (cases m) auto
  moreover with assms obtain b m2 where "m1 = b # m2" by (cases m1) auto
  moreover with assms calculation obtain c m3 where "m2 = c # m3" by (cases m2) auto
  moreover with assms calculation obtain d r where "m3 = d # r" by (cases m3) auto
  ultimately show ?thesis using that by simp
qed

lemma readUInt32LE_Cons4:
  "readUInt32LE (a # b # c # d # r) 0 =
     Inr (unat a + unat b * 2 ^ 8 + unat c * 2 ^ 16 + unat d * 2 ^ 24)"
  by (simp add: readUInt32LE_def)

lemma Q3MessageParser_short: "length m < 4 \<Longrightarrow> Q3MessageParser m True = Inl RangeError"
  by (simp add: Q3MessageParser_def readUInt32LE_def)

lemma Q3MessageParser_marker:
  "Q3MessageParser (0xFF # 0xFF # 0xFF # 0xFF # r) True =
     Inr \<lparr>msg = 0xFF # 0xFF # 0xFF # 0xFF # r, offset = 4\<rparr>"
  by (simp add: Q3MessageParser_def readUInt32LE_Cons4)

text \<open>
  Claim C7. A payload of at least four bytes whose first four bytes are not all \<open>0xFF\<close>
  (that is, whose little-endian 32-bit value is not \<open>0xFFFFFFFF\<close>) makes the
  constructor with header validation throw its missing-marker error. The result is the
  error alone: no parser object exists, so nothing after the marker is read.
\<close>

theorem marker_mismatch_fails:
  assumes "4 \<le> length m" and "take 4 m \<noteq> [0xFF, 0xFF, 0xFF, 0xFF]"
  shows "\<exists>marker. readUInt32LE m 0 = Inr marker \<and> marker \<noteq> 0xFFFFFFFF
           \<and> Q3MessageParser m True = Inl (MissingMarker marker)"
proof -
  from assms(1) obtain a b c d r where m: "m = a # b # c # d # r" by (rule four_bytes)
  let ?v = "unat a + unat b * 2 ^ 8 + unat c * 2 ^ 16 + unat d * 2 ^ 24"
  have rd: "readUInt32LE m 0 = Inr ?v" unfolding m by (rule readUInt32LE_Cons4)
  from assms(2) have "\<not> (a = 0xFF \<and> b = 0xFF \<and> c = 0xFF \<and> d = 0xFF)" by (simp add: m)
  then have ne: "?v \<noteq> 0xFFFFFFFF" using le32_max [of a b c d] by blast
  have "Q3MessageParser m True = Inl (MissingMarker ?v)"
    using ne rd by (simp add: Q3MessageParser_def)
  with rd ne show ?thesis by blast
qed

theorem marker_mismatch_fails_witness:
  "4 \<le> length [0xFF, 0xFF, 0xFF, 0xFE, 0x41 :: byte]
   \<and> take 4 [0xFF, 0xFF, 0xFF, 0xFE, 0x41 :: byte] \<noteq> [0xFF, 0xFF, 0xFF, 0xFF]
   \<and> (\<exists>marker. readUInt32LE [0xFF, 0xFF, 0xFF, 0xFE, 0x41 :: byte] 0 = Inr marker
         \<and> marker \<noteq> 0xFFFFFFFF
         \<and> Q3MessageParser [0xFF, 0xFF, 0xFF, 0xFE, 0x41 :: byte] True = Inl (MissingMarker marker))"
  using marker_mismatch_fails [of "[0xFF, 0xFF, 0xFF, 0xFE, 0x41 :: byte]"] by simp

subsection \<open>skip\<close>

text \<open>
  Claim C8, as the code has it. For \<open>n \<ge> 1\<close>, \<open>skip n\<close> advances the offset by \<open>n\<close>
  and returns true only when the new offset stays strictly below the buffer length.
  When \<open>offset + n\<close> reaches or exceeds the length, the offset becomes the length and
  the result is false; in particular, when \<open>offset + n\<close> equals the length exactly the
  offset does advance by \<open>n\<close> but the result is false. The result says whether bytes
  remain to be read after skipping.
\<close>

theorem skip_amended:
  assumes "1 \<le> n"
  shows "(offset p + n < length (msg p) \<longrightarrow> skip p n = (True, p\<lparr>offset := offset p + n\<rparr>))
       \<and> (length (msg p) \<le> offset p + n \<longrightarrow> skip p n = (False, p\<lparr>offset := length (msg p)\<rparr>))
       \<and> (offset p + n = length (msg p) \<longrightarrow>
            fst (skip p n) = False \<and> offset (snd (skip p n)) = offset p + n)
       \<and> fst (skip p n) = (0 < remainingBytes (snd (skip p n)))"
  by (auto simp: skip_def remainingBytes_def)

theorem skip_amended_witness:
  "(1::nat) \<le> 1
   \<and> skip \<lparr>msg = [0xFF, 0xFF, 0xFF, 0xFF, 0x41, 0x42], offset = 4\<rparr> 1
       = (True, \<lparr>msg = [0xFF, 0xFF, 0xFF, 0xFF, 0x41, 0x42], offset = 5\<rparr>)
   \<and> skip \<lparr>msg = [0xFF, 0xFF, 0xFF, 0xFF, 0x41, 0x42], offset = 5\<rparr> 1
       = (False, \<lparr>msg = [0xFF, 0xFF, 0xFF, 0xFF, 0x41, 0x42], offset = 6\<rparr>)"
  using skip_amended [of 1 "\<lparr>msg = [0xFF, 0xFF, 0xFF, 0xFF, 0x41, 0x42], offset = 4\<rparr>"]
        skip_amended [of 1 "\<lparr>msg = [0xFF, 0xFF, 0xFF, 0xFF, 0x41, 0x42], offset = 5\<rparr>"]
  by simp

text \<open>Reaching the end exactly returns false, not true.\<close>

theorem skip_at_end_counterexample:
  "offset \<lparr>msg = [0xFF, 0xFF, 0xFF, 0xFF, 0x41], offset = 4\<rparr> + 1
     = length (msg \<lparr>msg = [0xFF, 0xFF, 0xFF, 0xFF, 0x41], offset = 4\<rparr>)
   \<and> skip \<lparr>msg = [0xFF, 0xFF, 0xFF, 0xFF, 0x41], offset = 4\<rparr> 1
     = (False, \<lparr>msg = [0xFF, 0xFF, 0xFF, 0xFF, 0x41], offset = 5\<rparr>)"
  by (simp add: skip_def)

subsection \<open>readChars\<close>

text \<open>
  Claim C4, as the code has it. \<open>readChars n\<close> never fails. When at least \<open>n\<close> bytes
  remain it returns exactly the \<open>n\<close> bytes at the current offset as ASCII text and
  advances the offset by \<open>n\<close>. When fewer than \<open>n\<close> bytes remain it returns the
  remaining bytes only, as ASCII text: a truncated, possibly empty string. The payload
  is never changed.
\<close>

theorem readChars_amended:
  "msg (snd (readChars p n)) = msg p
   \<and> (offset p + n \<le> length (msg p) \<longrightarrow>
        fst (readChars p n) = toString_ascii (take n (drop (offset p) (msg p)))
        \<and> length (fst (readChars p n)) = n
        \<and> offset (snd (readChars p n)) = offset p + n)
   \<and> (length (msg p) < offset p + n \<longrightarrow>
        fst (readChars p n) = toString_ascii (drop (offset p) (msg p))
        \<and> length (fst (readChars p n)) = length (msg p) - offset p)"
  by (auto simp: readChars_def buf_slice_def toString_ascii_def)

theorem readChars_amended_witness:
  "fst (readChars \<lparr>msg = [0xFF, 0xFF, 0xFF, 0xFF, 0x41, 0x42], offset = 4\<rparr> 1) = ''A''
   \<and> offset (snd (readChars \<lparr>msg = [0xFF, 0xFF, 0xFF, 0xFF, 0x41, 0x42], offset = 4\<rparr> 1)) = 5
   \<and> fst (readChars \<lparr>msg = [0xFF, 0xFF, 0xFF, 0xFF, 0x41, 0x42], offset = 4\<rparr> 5) = ''AB''"
proof -
  have a: "toString_ascii [0x41 :: byte] = ''A''" by code_simp
  have b: "toString_ascii [0x41, 0x42 :: byte] = ''AB''" by code_simp
  show ?thesis
    using readChars_amended [of "\<lparr>msg = [0xFF, 0xFF, 0xFF, 0xFF, 0x41, 0x42], offset = 4\<rparr>" 1]
          readChars_amended [of "\<lparr>msg = [0xFF, 0xFF, 0xFF, 0xFF, 0x41, 0x42], offset = 4\<rparr>" 5]
    by (simp add: a b)
qed

text \<open>A read past the end returns the one byte that is left instead of failing.\<close>

theorem readChars_past_end_counterexample:
  "int 3 > remainingBytes \<lparr>msg = [0xFF, 0xFF, 0xFF, 0xFF, 0x41], offset = 4\<rparr>
   \<and> readChars \<lparr>msg = [0xFF, 0xFF, 0xFF, 0xFF, 0x41], offset = 4\<rparr> 3
       = (''A'', \<lparr>msg = [0xFF, 0xFF, 0xFF, 0xFF, 0x41], offset = 7\<rparr>)"
  by code_simp

subsection \<open>splitWithStride\<close>

text \<open>
  The loop with any accumulator and from any state: when a round either moves the offset
  (\<open>chunkSize + stride > 0\<close>) or is counted against a limit (\<open>numChunks > 0\<close>), the loop
  returns after some number \<open>k\<close> of rounds. Round \<open>i\<close> takes the \<open>chunkSize\<close> bytes at
  \<open>offset + i * (chunkSize + stride)\<close>, and it is run only while strictly more than
  \<open>chunkSize\<close> bytes remain there and the limit is not reached.
\<close>

lemma splitWithStride_loop_general:
  assumes "0 < cs + st \<or> 0 < nc"
  shows "\<exists>k. splitWithStride_loop cs st nc acc p =
              Some (acc @ map (\<lambda>i. take cs (drop (offset p + i * (cs + st)) (msg p))) [0..<k],
                    p\<lparr>offset := offset p + k * (cs + st)\<rparr>)
           \<and> (\<forall>i<k. offset p + i * (cs + st) + cs < length (msg p)
                     \<and> (nc = 0 \<or> length acc + i < nc))
           \<and> (length (msg p) \<le> offset p + k * (cs + st) + cs
                \<or> (nc \<noteq> 0 \<and> nc \<le> length acc + k))"
proof (induction "if nc = 0 then length (msg p) - offset p else nc - length acc"
         arbitrary: acc p rule: less_induct)
  case less
  let ?go = "offset p + cs < length (msg p) \<and> (nc = 0 \<or> length acc < nc)"
  show ?case
  proof (cases ?go)
    case False
    have "splitWithStride_loop cs st nc acc p = Some (acc, p)"
      by (simp only: splitWithStride_loop.simps [of cs st nc acc p] False if_False)
    with False show ?thesis
      by (intro exI [of _ 0]) auto
  next
    case True
    let ?acc = "acc @ [buf_slice (msg p) (offset p) (offset p + cs)]"
    let ?p = "p\<lparr>offset := offset p + cs + st\<rparr>"
    have step: "splitWithStride_loop cs st nc acc p = splitWithStride_loop cs st nc ?acc ?p"
      by (simp only: splitWithStride_loop.simps [of cs st nc acc p] True if_True simp_thms)
    have "(if nc = 0 then length (msg ?p) - offset ?p else nc - length ?acc)
            < (if nc = 0 then length (msg p) - offset p else nc - length acc)"
      using True assms by auto
    from less [OF this] obtain k where
      run: "splitWithStride_loop cs st nc ?acc ?p =
              Some (?acc @ map (\<lambda>i. take cs (drop (offset ?p + i * (cs + st)) (msg ?p))) [0..<k],
                    ?p\<lparr>offset := offset ?p + k * (cs + st)\<rparr>)"
      and taken: "\<forall>i<k. offset ?p + i * (cs + st) + cs < length (msg ?p)
                     \<and> (nc = 0 \<or> length ?acc + i < nc)"
      and stop: "length (msg ?p) \<le> offset ?p + k * (cs + st) + cs
                \<or> (nc \<noteq> 0 \<and> nc \<le> length ?acc + k)"
      by blast
    have shift: "offset ?p + i * (cs + st) = offset p + Suc i * (cs + st)" for i
      by simp
    have chunks: "?acc @ map (\<lambda>i. take cs (drop (offset ?p + i * (cs + st)) (msg ?p))) [0..<k]
                = acc @ map (\<lambda>i. take cs (drop (offset p + i * (cs + st)) (msg p))) [0..<Suc k]"
      unfolding shift by (simp add: map_upt_Suc buf_slice_def del: upt_Suc mult_Suc)
    have 1: "splitWithStride_loop cs st nc acc p =
              Some (acc @ map (\<lambda>i. take cs (drop (offset p + i * (cs + st)) (msg p))) [0..<Suc k],
                    p\<lparr>offset := offset p + Suc k * (cs + st)\<rparr>)"
      unfolding step run chunks by (simp add: algebra_simps)
    have 2: "\<forall>i<Suc k. offset p + i * (cs + st) + cs < length (msg p)
                     \<and> (nc = 0 \<or> length acc + i < nc)"
    proof (intro allI impI)
      fix i assume "i < Suc k"
      show "offset p + i * (cs + st) + cs < length (msg p) \<and> (nc = 0 \<or> length acc + i < nc)"
      proof (cases i)
        case 0
        with True show ?thesis by simp
      next
        case (Suc j)
        with \<open>i < Suc k\<close> have "j < k" by simp
        with taken have "offset ?p + j * (cs + st) + cs < length (msg ?p)
                     \<and> (nc = 0 \<or> length ?acc + j < nc)" by blast
        then show ?thesis unfolding shift Suc by simp
      qed
    qed
    have 3: "length (msg p) \<le> offset p + Suc k * (cs + st) + cs
                \<or> (nc \<noteq> 0 \<and> nc \<le> length acc + Suc k)"
      using stop unfolding shift by simp
    from 1 2 3 show ?thesis by blast
  qed
qed

lemma splitWithStride_loop_stuck:
  assumes "splitWithStride_loop cs st nc acc p = Some r"
  shows "\<not> (cs = 0 \<and> st = 0 \<and> nc = 0 \<and> offset p < length (msg p))"
proof (rule splitWithStride_loop.raw_induct
        [where P = "\<lambda>cs st nc acc p r. \<not> (cs = 0 \<and> st = 0 \<and> nc = 0 \<and> offset p < length (msg p))",
         OF _ assms])
  fix f :: "nat \<Rightarrow> nat \<Rightarrow> nat \<Rightarrow> buffer list \<Rightarrow> parser \<Rightarrow> (buffer list \<times> parser) option"
  fix cs st nc acc p r
  assume IH: "\<And>cs st nc acc p r. f cs st nc acc p = Some r \<Longrightarrow>
                \<not> (cs = 0 \<and> st = 0 \<and> nc = 0 \<and> offset p < length (msg p))"
    and eq: "(if offset p + cs < length (msg p) \<and> (nc = 0 \<or> length acc < nc)
              then f cs st nc (acc @ [buf_slice (msg p) (offset p) (offset p + cs)])
                     (p\<lparr>offset := offset p + cs + st\<rparr>)
              else Some (acc, p)) = Some r"
  show "\<not> (cs = 0 \<and> st = 0 \<and> nc = 0 \<and> offset p < length (msg p))"
  proof
    assume s: "cs = 0 \<and> st = 0 \<and> nc = 0 \<and> offset p < length (msg p)"
    with eq have "f 0 0 0 (acc @ [buf_slice (msg p) (offset p) (offset p)]) (p\<lparr>offset := offset p\<rparr>) = Some r"
      by simp
    from IH [OF this] s show False by simp
  qed
qed

lemma splitWithStride_loop_never_returns:
  "offset p < length (msg p) \<Longrightarrow> splitWithStride_loop 0 0 0 acc p = None"
  using splitWithStride_loop_stuck [of 0 0 0 acc p] by (cases "splitWithStride_loop 0 0 0 acc p") auto


text \<open>
  What the loop computes from the parser's own state, for \<open>chunkSize + stride \<ge> 1\<close> or
  \<open>numChunks \<ge> 1\<close>: \<open>k\<close> chunks of \<open>chunkSize\<close> bytes, \<open>chunkSize + stride\<close> bytes
  apart; each is taken with strictly more than \<open>chunkSize\<close> bytes left, and the loop stops
  with at most \<open>chunkSize\<close> bytes left or at the limit.
\<close>

lemma splitWithStride_chunks:
  assumes "0 < chunkSize + stride \<or> 0 < numChunks"
  shows "\<exists>k. splitWithStride p chunkSize stride numChunks =
              Some (map (\<lambda>i. take chunkSize (drop (offset p + i * (chunkSize + stride)) (msg p)))
                      [0..<k],
                    p\<lparr>offset := offset p + k * (chunkSize + stride)\<rparr>)
           \<and> (\<forall>i<k. offset p + i * (chunkSize + stride) + chunkSize < length (msg p))
           \<and> (numChunks \<noteq> 0 \<longrightarrow> k \<le> numChunks)
           \<and> (length (msg p) \<le> offset p + k * (chunkSize + stride) + chunkSize
                \<or> (numChunks \<noteq> 0 \<and> k = numChunks))"
proof -
  from splitWithStride_loop_general [OF assms, of "[]" p] obtain k where
    run: "splitWithStride_loop chunkSize stride numChunks [] p =
            Some ([] @ map (\<lambda>i. take chunkSize (drop (offset p + i * (chunkSize + stride)) (msg p)))
                    [0..<k],
                  p\<lparr>offset := offset p + k * (chunkSize + stride)\<rparr>)"
    and taken: "\<forall>i<k. offset p + i * (chunkSize + stride) + chunkSize < length (msg p)
                   \<and> (numChunks = 0 \<or> length ([] :: buffer list) + i < numChunks)"
    and stop: "length (msg p) \<le> offset p + k * (chunkSize + stride) + chunkSize
                \<or> (numChunks \<noteq> 0 \<and> numChunks \<le> length ([] :: buffer list) + k)"
    by blast
  have le: "k \<le> numChunks" if "numChunks \<noteq> 0"
  proof (cases k)
    case 0
    then show ?thesis by simp
  next
    case (Suc j)
    with taken that have "j < numChunks" by auto
    with Suc show ?thesis by simp
  qed
  have "splitWithStride p chunkSize stride numChunks =
          Some (map (\<lambda>i. take chunkSize (drop (offset p + i * (chunkSize + stride)) (msg p)))
                  [0..<k],
                p\<lparr>offset := offset p + k * (chunkSize + stride)\<rparr>)"
    using run by (simp add: splitWithStride_def)
  moreover have "\<forall>i<k. offset p + i * (chunkSize + stride) + chunkSize < length (msg p)"
    using taken by blast
  moreover have "numChunks \<noteq> 0 \<longrightarrow> k \<le> numChunks"
    using le by blast
  moreover have "length (msg p) \<le> offset p + k * (chunkSize + stride) + chunkSize
                \<or> (numChunks \<noteq> 0 \<and> k = numChunks)"
    using stop le by auto
  ultimately show ?thesis by blast
qed



text \<open>With one more byte behind it the same record is taken.\<close>

lemma splitWithStride_one_byte_more:
  "splitWithStride \<lparr>msg = [0xFF, 0xFF, 0xFF, 0xFF, 1, 2, 3, 4, 0x1F, 0x90, 0x5C], offset = 4\<rparr> 6 1 0
     = Some ([[1, 2, 3, 4, 0x1F, 0x90]],
             \<lparr>msg = [0xFF, 0xFF, 0xFF, 0xFF, 1, 2, 3, 4, 0x1F, 0x90, 0x5C], offset = 11\<rparr>)"
  by (simp add: splitWithStride_def splitWithStride_loop.simps buf_slice_def)

subsection \<open>Totality of the read primitives\<close>

lemma readLine_prefix:
  "\<exists>rest. toString_ascii_from (msg p) (offset p) = fst (readLine p) @ rest"
proof (cases "indexOf (toString_ascii_from (msg p) (offset p)) LF")
  case None
  then show ?thesis by (simp add: readLine_def Let_def)
next
  case (Some i)
  let ?str = "toString_ascii_from (msg p) (offset p)"
  have "\<exists>rest. ?str = take i ?str @ rest"
    by (rule exI [of _ "drop i ?str"]) simp
  with Some show ?thesis by (simp add: readLine_def Let_def)
qed

lemma length_toString_ascii_from:
  "length (toString_ascii_from b start) = length b - start"
  by (simp add: toString_ascii_from_def toString_ascii_def)

lemma readLine_length: "length (fst (readLine p)) \<le> length (msg p) - offset p"
  using readLine_prefix [of p] length_toString_ascii_from [of "msg p" "offset p"]
  by (metis le_add1 length_append)

text \<open>
  Claim C10, as the code has it. After construction, \<open>readLine\<close>, \<open>readChars\<close>,
  \<open>skip\<close> and \<open>remainingBytes\<close> return a value for every buffer, offset and
  non-negative argument, and a read that would pass the end of the buffer returns a
  truncated, possibly empty, string. \<open>splitWithStride\<close> returns whenever
  \<open>chunkSize + stride \<ge> 1\<close> or \<open>numChunks \<ge> 1\<close>.
\<close>

theorem reads_total_amended:
  "(0 < chunkSize + stride \<or> 0 < numChunks \<longrightarrow>
      (\<exists>r. splitWithStride p chunkSize stride numChunks = Some r))
   \<and> fst (readChars p n) = toString_ascii (take n (drop (offset p) (msg p)))
   \<and> length (fst (readChars p n)) = min n (length (msg p) - offset p)
   \<and> (\<exists>rest. toString_ascii_from (msg p) (offset p) = fst (readLine p) @ rest)
   \<and> length (fst (readLine p)) \<le> length (msg p) - offset p
   \<and> offset (snd (skip p n)) = min (offset p + n) (length (msg p))
   \<and> remainingBytes p = int (length (msg p)) - int (offset p)"
proof -
  have "0 < chunkSize + stride \<or> 0 < numChunks \<longrightarrow>
          (\<exists>r. splitWithStride p chunkSize stride numChunks = Some r)"
    using splitWithStride_loop_general [of chunkSize stride numChunks "[]" p]
    by (auto simp: splitWithStride_def)
  moreover have "fst (readChars p n) = toString_ascii (take n (drop (offset p) (msg p)))"
    by (simp add: readChars_def buf_slice_def)
  moreover have "length (fst (readChars p n)) = min n (length (msg p) - offset p)"
    by (simp add: readChars_def buf_slice_def toString_ascii_def)
  moreover have "offset (snd (skip p n)) = min (offset p + n) (length (msg p))"
    by (simp add: skip_def)
  ultimately show ?thesis
    using readLine_prefix [of p] readLine_length [of p] by (simp add: remainingBytes_def)
qed

theorem reads_total_amended_witness:
  "(0 < (6::nat) + 1 \<or> 0 < (0::nat))
   \<and> (\<exists>r. splitWithStride \<lparr>msg = [0xFF, 0xFF, 0xFF, 0xFF, 0x41], offset = 4\<rparr> 6 1 0 = Some r)"
  using reads_total_amended [of 6 1 0 "\<lparr>msg = [0xFF, 0xFF, 0xFF, 0xFF, 0x41], offset = 4\<rparr>"]
  by simp

text \<open>
  With \<open>chunkSize = stride = numChunks = 0\<close> and a byte left to read, the loop of
  \<open>splitWithStride\<close> never ends.
\<close>

theorem splitWithStride_zero_counterexample:
  "splitWithStride \<lparr>msg = [0xFF, 0xFF, 0xFF, 0xFF, 0x41], offset = 4\<rparr> 0 0 0 = None"
  using splitWithStride_loop_never_returns [of "\<lparr>msg = [0xFF, 0xFF, 0xFF, 0xFF, 0x41], offset = 4\<rparr>" "[]"]
  by (simp add: splitWithStride_def)

section \<open>Properties of the codec\<close>

subsection \<open>Splitting and joining\<close>

lemma split_from_not_Nil: "split_from sep cur s \<noteq> []"
  by (induction s arbitrary: cur) auto

lemma js_join_Cons: "ts \<noteq> [] \<Longrightarrow> js_join (t # ts) sep = t @ sep # js_join ts sep"
  by (cases ts) auto

lemma js_join_split_from: "js_join (split_from sep cur s) sep = cur @ s"
  by (induction s arbitrary: cur) (auto simp: js_join_Cons split_from_not_Nil)

lemma split_from_sep_free:
  "sep \<notin> set cur \<Longrightarrow> t \<in> set (split_from sep cur s) \<Longrightarrow> sep \<notin> set t"
proof (induction s arbitrary: cur)
  case Nil
  then show ?case by simp
next
  case (Cons c cs)
  show ?case
  proof (cases "c = sep")
    case True
    with Cons.prems have "t = cur \<or> t \<in> set (split_from sep [] cs)" by simp
    then show ?thesis
      using Cons.prems(1) Cons.IH [of "[]"] by auto
  next
    case False
    with Cons.prems have "t \<in> set (split_from sep (cur @ [c]) cs)" by simp
    moreover from False Cons.prems(1) have "sep \<notin> set (cur @ [c])" by simp
    ultimately show ?thesis by (rule Cons.IH [rotated])
  qed
qed

lemma js_join_js_split: "js_join (js_split s sep) sep = s"
  by (simp add: js_split_def js_join_split_from)

lemma js_split_sep_free: "t \<in> set (js_split s sep) \<Longrightarrow> sep \<notin> set t"
  using split_from_sep_free [of sep "[]" t s] by (simp add: js_split_def)

subsection \<open>parseInfostring\<close>

lemma length_pair_up: "length (pair_up xs) = length xs div 2"
  by (induction xs rule: pair_up.induct) auto

lemma parseInfostring_loop_pair_up:
  "parseInfostring_loop toks i pairs =
     foldl (\<lambda>obj (k, v). obj_assign obj (toLowerCase k) v) pairs (pair_up (drop i toks))"
proof (induction toks i pairs rule: parseInfostring_loop.induct)
  case (1 toks i pairs)
  show ?case
  proof (cases "int i < int (length toks) - 1")
    case True
    then have "Suc i < length toks" by simp
    then have "drop i toks = toks ! i # toks ! (i + 1) # drop (i + 2) toks"
      by (simp add: Cons_nth_drop_Suc Suc_lessD)
    with True "1.IH" show ?thesis
      by (subst parseInfostring_loop.simps) simp
  next
    case False
    then have "length (drop i toks) \<le> 1" by simp
    then have "pair_up (drop i toks) = []"
      by (cases "drop i toks" rule: pair_up.cases) auto
    with False show ?thesis
      by (subst parseInfostring_loop.simps) simp
  qed
qed

lemma foldl_obj_assign_lookup:
  "foldl (\<lambda>obj (k, v). obj_assign obj k v) m ps key =
     (if key = ''__proto__'' then m key
      else (case map_of (rev ps) key of None \<Rightarrow> m key | Some v \<Rightarrow> Some v))"
proof (induction ps arbitrary: m)
  case Nil
  then show ?case by simp
next
  case (Cons a ps)
  obtain k v where a: "a = (k, v)" by (cases a)
  have "foldl (\<lambda>obj (k, v). obj_assign obj k v) m (a # ps) key
          = foldl (\<lambda>obj (k, v). obj_assign obj k v) (obj_assign m k v) ps key"
    by (simp add: a)
  also have "\<dots> = (if key = ''__proto__'' then obj_assign m k v key
                    else (case map_of (rev ps) key of None \<Rightarrow> obj_assign m k v key
                          | Some v \<Rightarrow> Some v))"
    by (rule Cons.IH)
  also have "\<dots> = (if key = ''__proto__'' then m key
                    else (case map_of (rev (a # ps)) key of None \<Rightarrow> m key
                          | Some v \<Rightarrow> Some v))"
    by (simp add: a obj_assign_def map_add_def split: option.splits)
  finally show ?case .
qed

lemma foldl_assign_map:
  "foldl (\<lambda>obj (k, v). obj_assign obj (f k) v) m ps
     = foldl (\<lambda>obj (k, v). obj_assign obj k v) m (map (\<lambda>(k, v). (f k, v)) ps)"
  by (induction ps arbitrary: m) auto

text \<open>
  What \<open>parseInfostring\<close> computes, for every string. It strips one leading backslash
  if there is one, splits the rest on backslashes (the tokens are free of backslashes
  and joined by backslashes give the rest back), pairs consecutive tokens as key and
  value with the key lower-cased, and drops the trailing token of an odd count
  (\<open>length toks div 2\<close> pairs). The mapping is the result of assigning the pairs in
  order to an empty object: a later pair replaces an earlier one with the same key, and
  an assignment under the key \<open>__proto__\<close> stores nothing.
\<close>

lemma parseInfostring_pairs:
  "(let rest = (if info \<noteq> [] \<and> hd info = BACKSLASH then tl info else info);
        toks = js_split rest BACKSLASH;
        pairs = map (\<lambda>(k, v). (toLowerCase k, v)) (pair_up toks)
    in js_join toks BACKSLASH = rest
       \<and> (\<forall>t\<in>set toks. BACKSLASH \<notin> set t)
       \<and> length pairs = length toks div 2
       \<and> parseInfostring info = foldl (\<lambda>obj (k, v). obj_assign obj k v) Map.empty pairs
       \<and> (\<forall>key. parseInfostring info key =
                   (if key = ''__proto__'' then None else map_of (rev pairs) key)))"
proof -
  define rest where "rest = (if info \<noteq> [] \<and> hd info = BACKSLASH then tl info else info)"
  define toks where "toks = js_split rest BACKSLASH"
  define pairs where "pairs = map (\<lambda>(k, v). (toLowerCase k, v)) (pair_up toks)"
  have rest: "(case info of c # r \<Rightarrow> if c = BACKSLASH then r else info | [] \<Rightarrow> info) = rest"
    unfolding rest_def by (cases info) simp_all
  have "parseInfostring info =
          foldl (\<lambda>obj (k, v). obj_assign obj (toLowerCase k) v) Map.empty (pair_up toks)"
    unfolding parseInfostring_def rest Let_def
    by (simp add: parseInfostring_loop_pair_up toks_def)
  also have "\<dots> = foldl (\<lambda>obj (k, v). obj_assign obj k v) Map.empty pairs"
    unfolding pairs_def by (rule foldl_assign_map)
  finally have run:
    "parseInfostring info = foldl (\<lambda>obj (k, v). obj_assign obj k v) Map.empty pairs" .
  have look: "parseInfostring info key =
                (if key = ''__proto__'' then None else map_of (rev pairs) key)" for key
    unfolding run foldl_obj_assign_lookup by (simp split: option.splits)
  have "js_join toks BACKSLASH = rest"
    by (simp add: toks_def js_join_js_split)
  moreover have "\<forall>t\<in>set toks. BACKSLASH \<notin> set t"
    using js_split_sep_free by (auto simp: toks_def)
  moreover have "length pairs = length toks div 2"
    by (simp add: pairs_def length_pair_up)
  ultimately show ?thesis
    using run look unfolding Let_def rest_def [symmetric] toks_def [symmetric] pairs_def [symmetric]
    by blast
qed

text \<open>
  Lower-casing, against the letters written out. On 7-bit text \<open>toLowerCase\<close> is the
  letter table of the spec's words; above it only the Latin-1 capitals change.
\<close>

lemma toLowerCase_char_letters:
  "map toLowerCase_char capital_letters = small_letters"
  by code_simp

lemma lower_case_letter_letters:
  "map lower_case_letter capital_letters = small_letters"
  by code_simp

lemma capital_letter_iff:
  "c \<in> set capital_letters \<longleftrightarrow> 0x41 \<le> (of_char c :: nat) \<and> (of_char c :: nat) \<le> 0x5A"
proof
  assume "c \<in> set capital_letters"
  moreover have "list_all (\<lambda>c. 0x41 \<le> (of_char c :: nat) \<and> (of_char c :: nat) \<le> 0x5A)
                   capital_letters"
    by (simp add: capital_letters_def)
  ultimately show "0x41 \<le> (of_char c :: nat) \<and> (of_char c :: nat) \<le> 0x5A"
    by (simp add: list_all_iff)
next
  assume r: "0x41 \<le> (of_char c :: nat) \<and> (of_char c :: nat) \<le> 0x5A"
  define i where "i = (of_char c :: nat) - 0x41"
  have len: "length capital_letters = 26"
    by (simp add: capital_letters_def)
  have codes: "map (of_char :: char \<Rightarrow> nat) capital_letters = map (\<lambda>i. 0x41 + i) [0..<26]"
    by (simp add: capital_letters_def upt_rec)
  from r have i: "i < 26" "(of_char c :: nat) = 0x41 + i"
    unfolding i_def by arith+
  have "(of_char (capital_letters ! i) :: nat) = map of_char capital_letters ! i"
    using i(1) len by simp
  also have "\<dots> = 0x41 + i"
    using i(1) by (simp only: codes) simp
  finally have "capital_letters ! i = c"
    using i(2) by (simp only: of_char_eq_iff [symmetric, where 'a = nat])
  with i(1) len show "c \<in> set capital_letters"
    by (metis nth_mem)
qed

lemma toLowerCase_char_ascii:
  assumes "(of_char c :: nat) < 0x80"
  shows "toLowerCase_char c = lower_case_letter c"
proof (cases "c \<in> set capital_letters")
  case True
  then obtain i where i: "i < length capital_letters" "c = capital_letters ! i"
    by (auto simp: in_set_conv_nth)
  have "toLowerCase_char c = map toLowerCase_char capital_letters ! i"
    using i by simp
  also have "\<dots> = map lower_case_letter capital_letters ! i"
    by (simp only: toLowerCase_char_letters lower_case_letter_letters)
  also have "\<dots> = lower_case_letter c"
    using i by simp
  finally show ?thesis .
next
  case False
  then have "map_of (zip capital_letters small_letters) c = None"
    by (simp add: map_of_eq_None_iff capital_letters_def small_letters_def)
  then have "lower_case_letter c = c"
    by (simp add: lower_case_letter_def)
  moreover from False assms have "toLowerCase_char c = c"
    by (auto simp: capital_letter_iff toLowerCase_char_def Let_def)
  ultimately show ?thesis by simp
qed

lemma toLowerCase_ascii:
  assumes "\<forall>c\<in>set k. (of_char c :: nat) < 0x80"
  shows "toLowerCase k = map lower_case_letter k"
  using assms by (simp add: toLowerCase_def toLowerCase_char_ascii)

lemma toLowerCase_char_latin1:
  "of_char (toLowerCase_char c) =
     (if (0x41 \<le> (of_char c :: nat) \<and> (of_char c :: nat) \<le> 0x5A)
         \<or> (0xC0 \<le> (of_char c :: nat) \<and> (of_char c :: nat) \<le> 0xDE \<and> (of_char c :: nat) \<noteq> 0xD7)
      then (of_char c :: nat) + 0x20 else of_char c)"
  by (auto simp: toLowerCase_char_def Let_def)

lemma toLowerCase_examples:
  "toLowerCase ''Sv_HostName'' = ''sv_hostname''"
  "toLowerCase [CHR 0xC9, CHR 0xD7, CHR 0xDF] = [CHR 0xE9, CHR 0xD7, CHR 0xDF]"
  by code_simp+

lemma split_from_chars:
  "t \<in> set (split_from sep cur s) \<Longrightarrow> set t \<subseteq> set cur \<union> set s"
proof (induction s arbitrary: cur)
  case Nil
  then show ?case by simp
next
  case (Cons c cs)
  show ?case
  proof (cases "c = sep")
    case True
    with Cons.prems have "t = cur \<or> t \<in> set (split_from sep [] cs)" by simp
    then show ?thesis using Cons.IH [of "[]"] by auto
  next
    case False
    with Cons.prems have "t \<in> set (split_from sep (cur @ [c]) cs)" by simp
    from Cons.IH [OF this] show ?thesis by auto
  qed
qed

lemma pair_up_keys: "(k, v) \<in> set (pair_up xs) \<Longrightarrow> k \<in> set xs"
  by (induction xs rule: pair_up.induct) auto

text \<open>
  On 7-bit text, which is all the parser hands over, the keys are lower-cased by the
  letter table.
\<close>

lemma parseInfostring_ascii:
  assumes "\<forall>c\<in>set info. (of_char c :: nat) < 0x80"
  shows "parseInfostring info =
           foldl (\<lambda>obj (k, v). obj_assign obj k v) Map.empty
             (map (\<lambda>(k, v). (map lower_case_letter k, v))
                (pair_up (js_split (if info \<noteq> [] \<and> hd info = BACKSLASH then tl info else info)
                            BACKSLASH)))"
proof -
  let ?rest = "if info \<noteq> [] \<and> hd info = BACKSLASH then tl info else info"
  let ?ps = "pair_up (js_split ?rest BACKSLASH)"
  have rest: "set ?rest \<subseteq> set info"
    by (cases info) auto
  have "toLowerCase k = map lower_case_letter k" if "(k, v) \<in> set ?ps" for k v
  proof (rule toLowerCase_ascii, rule ballI)
    fix c assume "c \<in> set k"
    moreover from that have "k \<in> set (split_from BACKSLASH [] ?rest)"
      by (auto dest: pair_up_keys simp: js_split_def)
    ultimately have "c \<in> set ?rest"
      using split_from_chars [of k BACKSLASH "[]" ?rest] by auto
    with rest assms show "(of_char c :: nat) < 0x80" by blast
  qed
  then have "map (\<lambda>(k, v). (toLowerCase k, v)) ?ps = map (\<lambda>(k, v). (map lower_case_letter k, v)) ?ps"
    by (intro map_cong) auto
  with parseInfostring_pairs [of info] show ?thesis
    by (simp add: Let_def)
qed

text \<open>
  Claim C6 at the infostring \<open>__proto__\x\<close>. Its two tokens pair up as the key
  \<open>__proto__\<close> and the value \<open>x\<close>, but \<open>parseInfostring\<close> returns the empty mapping:
  the pair is lost, because the result is a plain object and an assignment under that
  key stores nothing. The same happens to \<open>__PROTO__\<close>, which is lower-cased first,
  while the pair after it is stored under its lower-cased key.
\<close>

theorem parseInfostring_drops_proto_key:
  "pair_up (js_split (''__proto__'' @ BACKSLASH # ''x'') BACKSLASH) = [(''__proto__'', ''x'')]
   \<and> parseInfostring (''__proto__'' @ BACKSLASH # ''x'') = Map.empty
   \<and> parseInfostring (BACKSLASH # ''__PROTO__'' @ BACKSLASH # ''x'' @ BACKSLASH # ''Key'' @ BACKSLASH # ''v'')
       = [''key'' \<mapsto> ''v'']"
proof -
  have s1: "js_split (''__proto__'' @ BACKSLASH # ''x'') BACKSLASH = [''__proto__'', ''x'']"
    by code_simp
  have s2: "js_split (''__PROTO__'' @ BACKSLASH # ''x'' @ BACKSLASH # ''Key'' @ BACKSLASH # ''v'') BACKSLASH
              = [''__PROTO__'', ''x'', ''Key'', ''v'']"
    by code_simp
  have l: "toLowerCase ''__proto__'' = ''__proto__''" "toLowerCase ''__PROTO__'' = ''__proto__''"
      "toLowerCase ''Key'' = ''key''"
    by code_simp+
  have 1: "pair_up (js_split (''__proto__'' @ BACKSLASH # ''x'') BACKSLASH) = [(''__proto__'', ''x'')]"
    by (simp only: s1 pair_up.simps)
  have 2: "parseInfostring (''__proto__'' @ BACKSLASH # ''x'') = Map.empty"
    unfolding parseInfostring_def Let_def
    by (simp add: s1 [simplified] parseInfostring_loop_pair_up l obj_assign_def)
  have 3: "parseInfostring (BACKSLASH # ''__PROTO__'' @ BACKSLASH # ''x'' @ BACKSLASH # ''Key'' @ BACKSLASH # ''v'')
             = [''key'' \<mapsto> ''v'']"
    unfolding parseInfostring_def Let_def
    by (simp add: s2 [simplified] parseInfostring_loop_pair_up l obj_assign_def)
  from 1 2 3 show ?thesis by blast
qed

theorem parseInfostring_drops_proto_key_witness:
  "parseInfostring (''__proto__'' @ BACKSLASH # ''x'') ''__proto__'' = None
   \<and> map_of (pair_up (js_split (''__proto__'' @ BACKSLASH # ''x'') BACKSLASH)) ''__proto__'' = Some ''x''"
  using parseInfostring_drops_proto_key by simp

subsection \<open>encodeServer and decodeServer\<close>

text \<open>
  Claim C1 at the address 1.2.3.4 with port 8080 (\<open>0x1F90\<close>). \<open>encodeServer\<close> writes
  the number \<open>(port >> 8) | (port & 0xFF)\<close>, that is \<open>0x1F | 0x90 = 0x9F\<close>, as the
  16-bit port field: the bytes are \<open>00 9F\<close>, not \<open>1F 90\<close>, and decoding them gives
  port 159, not 8080.
\<close>

theorem encodeServer_port_folded:
  "encodeServer ''1.2.3.4'' 8080 = Inr [1, 2, 3, 4, 0x00, 0x9F]
   \<and> decodeServer [1, 2, 3, 4, 0x00, 0x9F] = Inr \<lparr>ip = ''1.2.3.4'', port = 159\<rparr>"
  by code_simp

text \<open>
  \<open>decodeServer\<close> itself reads the port in network byte order, and a first octet from
  128 up makes \<open>encodeServer\<close> pass a negative number to \<open>writeUInt32BE\<close>, which
  raises.
\<close>

lemma decodeServer_network_order:
  "decodeServer [1, 2, 3, 4, 0x1F, 0x90] = Inr \<lparr>ip = ''1.2.3.4'', port = 8080\<rparr>"
  by code_simp

lemma encodeServer_high_octet: "encodeServer ''200.1.2.3'' 80 = Inl RangeError"
  by code_simp

section \<open>Properties of the protocol operations\<close>

subsection \<open>getservers\<close>

text \<open>
  The number read by \<open>readUInt8\<close> is never strictly equal to one of the two strings,
  so the loop body runs exactly once: one byte is skipped, whatever follows it.
\<close>

lemma ctm_getservers_skip_once:
  "ctm_getservers_skip parser =
     (case readUInt8 (msg (snd (skip parser 1))) (offset (snd (skip parser 1))) of
        Inl e \<Rightarrow> Inl e
      | Inr b \<Rightarrow> Inr (snd (skip parser 1)))"
  by (subst ctm_getservers_skip.simps) (simp split: sum.splits)

lemma getservers_example_text:
  "getservers_example =
     [0xFF, 0xFF, 0xFF, 0xFF] @ map of_char ''getserversResponse''
       @ [0, 0, 1, 2, 3, 4, 0x1F, 0x90, 0x5C, 5, 6, 7, 8, 0x4E, 0x20, 0x5C]
       @ map of_char ''EOT''"
  by (simp add: getservers_example_def)

lemma same_source:
  "\<not> ((ip (source \<lparr>source = a, response = m\<rparr>) \<noteq> ip a
        \<or> port (source \<lparr>source = a, response = m\<rparr>) \<noteq> port a) \<and> strictMode)"
  by simp

text \<open>
  Claim C2 at the spec's datagram, in strict mode and from the expected source. Only
  the first of the two NUL bytes is skipped, so the six-byte chunks start one byte
  early: the callback gets the servers 0.1.2.3:1055 and 92.5.6.7:2126 instead of
  1.2.3.4:8080 and 5.6.7.8:20000.
\<close>

theorem ctm_getservers_two_padding_bytes:
  "ctm_getservers_reply True server_address
     \<lparr>source = server_address, response = getservers_example\<rparr>
   = Some (Inr [\<lparr>ip = ''0.1.2.3'', port = 1055\<rparr>, \<lparr>ip = ''92.5.6.7'', port = 2126\<rparr>])"
proof -
  let ?m = getservers_example
  have p0: "Q3MessageParser ?m True = Inr \<lparr>msg = ?m, offset = 4\<rparr>"
    unfolding getservers_example_def by (rule Q3MessageParser_marker)
  have p1: "readChars \<lparr>msg = ?m, offset = 4\<rparr> (length ''getserversResponse'')
              = (''getserversResponse'', \<lparr>msg = ?m, offset = 22\<rparr>)"
    by code_simp
  have p2: "ctm_getservers_skip \<lparr>msg = ?m, offset = 22\<rparr> = Inr \<lparr>msg = ?m, offset = 23\<rparr>"
    by (simp add: ctm_getservers_skip_once skip_def readUInt8_def getservers_example_def)
  have p3: "splitWithStride \<lparr>msg = ?m, offset = 23\<rparr> 6 1 0
              = Some ([[0x00, 0x01, 0x02, 0x03, 0x04, 0x1F], [0x5C, 0x05, 0x06, 0x07, 0x08, 0x4E]],
                      \<lparr>msg = ?m, offset = 37\<rparr>)"
    by (simp add: splitWithStride_def splitWithStride_loop.simps buf_slice_def
          getservers_example_def)
  have p4: "decode_chunks [[0x00, 0x01, 0x02, 0x03, 0x04, 0x1F], [0x5C, 0x05, 0x06, 0x07, 0x08, 0x4E]] []
              = Inr [\<lparr>ip = ''0.1.2.3'', port = 1055\<rparr>, \<lparr>ip = ''92.5.6.7'', port = 2126\<rparr>]"
    by code_simp
  have p5: "readLine \<lparr>msg = ?m, offset = 37\<rparr> = (BACKSLASH # ''EOT'', \<lparr>msg = ?m, offset = 41\<rparr>)"
    by code_simp
  show ?thesis
    unfolding ctm_getservers_reply_def Let_def
    by (simp only: same_source if_False reply.simps p0 p1 p2 p3 p4 p5 sum.case prod.case
          option.case simp_thms)
qed

theorem ctm_getservers_two_padding_bytes_witness:
  "\<exists>servers. ctm_getservers_reply True server_address
                \<lparr>source = server_address, response = getservers_example\<rparr>
              = Some (Inr servers)
            \<and> servers \<noteq> [\<lparr>ip = ''1.2.3.4'', port = 8080\<rparr>, \<lparr>ip = ''5.6.7.8'', port = 20000\<rparr>]"
  using ctm_getservers_two_padding_bytes by simp

text \<open>With a single byte between the command and the records the two servers come out.\<close>

lemma ctm_getservers_one_separator:
  "ctm_getservers_reply True server_address
     \<lparr>source = server_address, response = getservers_dpmaster_example\<rparr>
   = Some (Inr [\<lparr>ip = ''1.2.3.4'', port = 8080\<rparr>, \<lparr>ip = ''5.6.7.8'', port = 20000\<rparr>])"
proof -
  let ?m = getservers_dpmaster_example
  have p0: "Q3MessageParser ?m True = Inr \<lparr>msg = ?m, offset = 4\<rparr>"
    unfolding getservers_dpmaster_example_def by (rule Q3MessageParser_marker)
  have p1: "readChars \<lparr>msg = ?m, offset = 4\<rparr> (length ''getserversResponse'')
              = (''getserversResponse'', \<lparr>msg = ?m, offset = 22\<rparr>)"
    by code_simp
  have p2: "ctm_getservers_skip \<lparr>msg = ?m, offset = 22\<rparr> = Inr \<lparr>msg = ?m, offset = 23\<rparr>"
    by (simp add: ctm_getservers_skip_once skip_def readUInt8_def getservers_dpmaster_example_def)
  have p3: "splitWithStride \<lparr>msg = ?m, offset = 23\<rparr> 6 1 0
              = Some ([[0x01, 0x02, 0x03, 0x04, 0x1F, 0x90], [0x05, 0x06, 0x07, 0x08, 0x4E, 0x20]],
                      \<lparr>msg = ?m, offset = 37\<rparr>)"
    by (simp add: splitWithStride_def splitWithStride_loop.simps buf_slice_def
          getservers_dpmaster_example_def)
  have p4: "decode_chunks [[0x01, 0x02, 0x03, 0x04, 0x1F, 0x90], [0x05, 0x06, 0x07, 0x08, 0x4E, 0x20]] []
              = Inr [\<lparr>ip = ''1.2.3.4'', port = 8080\<rparr>, \<lparr>ip = ''5.6.7.8'', port = 20000\<rparr>]"
    by code_simp
  have p5: "readLine \<lparr>msg = ?m, offset = 37\<rparr> = (''EOT'', \<lparr>msg = ?m, offset = 40\<rparr>)"
    by code_simp
  show ?thesis
    unfolding ctm_getservers_reply_def Let_def
    by (simp only: same_source if_False reply.simps p0 p1 p2 p3 p4 p5 sum.case prod.case
          option.case simp_thms)
qed

subsection \<open>getinfo\<close>

text \<open>
  In strict mode a reply is accepted only if its infostring has the challenge that was
  sent, and the mapping is handed on as parsed: every strict-mode result contains the
  \<open>challenge\<close> key.
\<close>

lemma cts_getinfo_strict_keeps_challenge:
  "cts_getinfo_reply True opts challenge res = Inr (src, info) \<Longrightarrow>
     info ''challenge'' = Some challenge"
  by (auto simp: cts_getinfo_reply_def Let_def split: if_splits sum.splits prod.splits)

text \<open>
  Claim C3 at an \<open>infoResponse\<close> that echoes the default challenge, in strict mode: the
  operation succeeds with the source address and the parsed infostring, and that mapping
  still has the \<open>challenge\<close> key.
\<close>

theorem cts_getinfo_keeps_challenge:
  "cts_getinfo_reply True server_address (request_challenge None)
     \<lparr>source = server_address, response = getinfo_example\<rparr>
     = Inr (server_address, parseInfostring getinfo_infostring)
   \<and> parseInfostring getinfo_infostring ''challenge'' = Some ''jkutils-query''"
proof -
  let ?m = getinfo_example
  have p0: "Q3MessageParser ?m True = Inr \<lparr>msg = ?m, offset = 4\<rparr>"
    unfolding getinfo_example_def by (simp add: Q3MessageParser_marker)
  have p1: "readLine \<lparr>msg = ?m, offset = 4\<rparr> = (''infoResponse'', \<lparr>msg = ?m, offset = 17\<rparr>)"
    by code_simp
  have p2: "readLine \<lparr>msg = ?m, offset = 17\<rparr> = (getinfo_infostring, \<lparr>msg = ?m, offset = 54\<rparr>)"
    by code_simp
  have p3: "parseInfostring getinfo_infostring ''challenge'' = Some ''jkutils-query''"
    by code_simp
  have p4: "request_challenge None = ''jkutils-query''"
    by (simp add: request_challenge_def)
  have "cts_getinfo_reply True server_address (request_challenge None)
          \<lparr>source = server_address, response = getinfo_example\<rparr>
        = Inr (server_address, parseInfostring getinfo_infostring)"
    unfolding cts_getinfo_reply_def Let_def
    by (simp only: same_source if_False reply.simps p0 p1 p2 p3 p4 sum.case prod.case
          simp_thms)
  then show ?thesis using p3 by (rule conjI)
qed

theorem cts_getinfo_keeps_challenge_witness:
  "\<exists>info. cts_getinfo_reply True server_address (request_challenge None)
             \<lparr>source = server_address, response = getinfo_example\<rparr>
           = Inr (server_address, info)
         \<and> info ''challenge'' \<noteq> None"
  using cts_getinfo_keeps_challenge by simp

subsection \<open>getstatus\<close>

lemma split_from_indexOf:
  "split_from sep cur s =
     (case indexOf s sep of
        None \<Rightarrow> [cur @ s]
      | Some i \<Rightarrow> (cur @ take i s) # split_from sep [] (drop (Suc i) s))"
  by (induction s arbitrary: cur) (auto split: option.splits)

lemma js_split_indexOf:
  "js_split s sep =
     (case indexOf s sep of
        None \<Rightarrow> [s]
      | Some i \<Rightarrow> take i s # js_split (drop (Suc i) s) sep)"
  unfolding js_split_def by (subst split_from_indexOf) (simp split: option.splits)

lemma js_split_Nil: "js_split [] sep = [[]]"
  by (simp add: js_split_def)

lemma toString_ascii_from_drop:
  "toString_ascii_from b (off + n) = drop n (toString_ascii_from b off)"
  by (simp add: toString_ascii_from_def toString_ascii_def drop_map add.commute)

lemma toString_ascii_from_end:
  "toString_ascii_from b (off + length (toString_ascii_from b off)) = []"
  by (simp add: toString_ascii_from_def toString_ascii_def)

text \<open>
  One \<open>readLine\<close> against the lines of the text that is left: it returns the first line,
  and what it leaves has the remaining lines (nothing, once the text is used up).
\<close>

lemma readLine_lines:
  fixes p :: parser
  defines "ls \<equiv> js_split (toString_ascii_from (msg p) (offset p)) LF"
  defines "ls' \<equiv> js_split (toString_ascii_from (msg (snd (readLine p))) (offset (snd (readLine p)))) LF"
  shows "ls = fst (readLine p) # tl ls"
    and "takeWhile (\<lambda>l. l \<noteq> []) ls' = takeWhile (\<lambda>l. l \<noteq> []) (tl ls)"
    and "tl ls' = tl (tl ls)"
proof -
  let ?str = "toString_ascii_from (msg p) (offset p)"
  show "ls = fst (readLine p) # tl ls"
    and "takeWhile (\<lambda>l. l \<noteq> []) ls' = takeWhile (\<lambda>l. l \<noteq> []) (tl ls)"
    and "tl ls' = tl (tl ls)"
  proof (atomize (full), cases "indexOf ?str LF")
    case None
    then have 1: "ls = [?str]" by (simp add: ls_def js_split_indexOf [of ?str])
    from None have 2: "readLine p = (?str, p\<lparr>offset := offset p + length ?str\<rparr>)"
      by (simp add: readLine_def Let_def)
    have 3: "ls' = [[]]"
      by (simp add: ls'_def 2 toString_ascii_from_end js_split_Nil)
    show "ls = fst (readLine p) # tl ls
          \<and> takeWhile (\<lambda>l. l \<noteq> []) ls' = takeWhile (\<lambda>l. l \<noteq> []) (tl ls)
          \<and> tl ls' = tl (tl ls)"
      by (simp add: 1 2 3)
  next
    case (Some i)
    then have 2: "readLine p = (take i ?str, p\<lparr>offset := offset p + (i + 1)\<rparr>)"
      by (simp add: readLine_def Let_def)
    have "toString_ascii_from (msg p) (offset p + (i + 1)) = drop (Suc i) ?str"
      using toString_ascii_from_drop [of "msg p" "offset p" "i + 1"] by simp
    then have 3: "ls' = js_split (drop (Suc i) ?str) LF"
      by (simp add: ls'_def 2)
    from Some have 1: "ls = take i ?str # ls'"
      by (simp add: ls_def 3 js_split_indexOf [of ?str])
    show "ls = fst (readLine p) # tl ls
          \<and> takeWhile (\<lambda>l. l \<noteq> []) ls' = takeWhile (\<lambda>l. l \<noteq> []) (tl ls)
          \<and> tl ls' = tl (tl ls)"
      by (simp add: 1 2)
  qed
qed

lemma cts_getstatus_clients_lines:
  "fst (cts_getstatus_clients p acc) =
     acc @ List.map_filter client_regex_exec
             (takeWhile (\<lambda>l. l \<noteq> []) (js_split (toString_ascii_from (msg p) (offset p)) LF))"
proof (induction p acc rule: cts_getstatus_clients.induct)
  case (1 p acc)
  let ?ls = "js_split (toString_ascii_from (msg p) (offset p)) LF"
  let ?line = "fst (readLine p)"
  have ls: "?ls = ?line # tl ?ls" by (rule readLine_lines(1))
  show ?case
  proof (cases "?line = []")
    case True
    then have "takeWhile (\<lambda>l. l \<noteq> []) ?ls = []"
      by (subst ls) simp
    with True show ?thesis
      by (subst cts_getstatus_clients.simps) (simp add: map_filter_simps)
  next
    case False
    let ?acc = "case client_regex_exec ?line of Some groups \<Rightarrow> acc @ [groups] | None \<Rightarrow> acc"
    let ?rest = "takeWhile (\<lambda>l. l \<noteq> []) (tl ?ls)"
    have "fst (cts_getstatus_clients p acc) = fst (cts_getstatus_clients (snd (readLine p)) ?acc)"
      using False by (subst cts_getstatus_clients.simps) simp
    also have "\<dots> = ?acc @ List.map_filter client_regex_exec ?rest"
      using "1.IH" [OF False] by (simp only: readLine_lines(2) [of p])
    also have "\<dots> = acc @ List.map_filter client_regex_exec (?line # ?rest)"
      by (simp add: map_filter_simps split: option.splits)
    also have "?line # ?rest = takeWhile (\<lambda>l. l \<noteq> []) ?ls"
      using False by (subst (2) ls) simp
    finally show ?thesis .
  qed
qed

lemma cts_getstatus_reply_clients:
  assumes "cts_getstatus_reply strictMode opts challenge res = Inr (src, status, clients)"
  shows "clients = List.map_filter client_regex_exec
           (takeWhile (\<lambda>l. l \<noteq> [])
              (drop 2 (js_split (toString_ascii (drop 4 (response res))) LF)))"
proof -
  from assms obtain p0 where p0: "Q3MessageParser (response res) True = Inr p0"
    by (auto simp: cts_getstatus_reply_def split: if_splits sum.splits)
  then have p0_eq: "p0 = \<lparr>msg = response res, offset = 4\<rparr>"
    by (auto simp: Q3MessageParser_def split: if_splits sum.splits)
  let ?p1 = "snd (readLine p0)"
  let ?p2 = "snd (readLine ?p1)"
  let ?lines = "\<lambda>p. js_split (toString_ascii_from (msg p) (offset p)) LF"
  from assms p0 have "clients = fst (cts_getstatus_clients ?p2 [])"
    by (auto simp: cts_getstatus_reply_def Let_def split: if_splits prod.splits)
  then have "clients = List.map_filter client_regex_exec (takeWhile (\<lambda>l. l \<noteq> []) (?lines ?p2))"
    by (simp add: cts_getstatus_clients_lines)
  also have "takeWhile (\<lambda>l. l \<noteq> []) (?lines ?p2) = takeWhile (\<lambda>l. l \<noteq> []) (tl (?lines ?p1))"
    by (rule readLine_lines(2))
  also have "tl (?lines ?p1) = tl (tl (?lines p0))"
    by (rule readLine_lines(3))
  also have "tl (tl (?lines p0)) = drop 2 (?lines p0)"
    by (simp add: drop_Suc numeral_2_eq_2 drop_tl)
  also have "?lines p0 = js_split (toString_ascii (drop 4 (response res))) LF"
    by (simp add: p0_eq toString_ascii_from_def)
  finally show ?thesis .
qed


text \<open>The regular expression, as the shape of the lines it matches.\<close>

lemma digits_then_other:
  assumes "list_all is_digit ds" and "\<not> is_digit y"
  shows "takeWhile is_digit (ds @ y # r) = ds" and "dropWhile is_digit (ds @ y # r) = y # r"
  using assms by (simp_all add: list_all_iff takeWhile_append2 dropWhile_append2)

lemma not_digit_space: "\<not> is_digit (CHR '' '')"
  by (simp add: is_digit_def)

lemma client_regex_exec_shape:
  "client_regex_exec line = Some c \<longleftrightarrow>
     line = score c @ CHR '' '' # ping c @ CHR '' '' # DQUOTE # name c @ [DQUOTE]
     \<and> score c \<noteq> [] \<and> list_all is_digit (score c)
     \<and> ping c \<noteq> [] \<and> list_all is_digit (ping c)
     \<and> name c \<noteq> [] \<and> \<not> list_ex is_line_terminator (name c)"
  (is "?L \<longleftrightarrow> ?R")
proof
  assume ?L
  let ?s = "takeWhile is_digit line"
  let ?r1 = "dropWhile is_digit line"
  from \<open>?L\<close> have s: "?s \<noteq> []"
    by (auto simp: client_regex_exec_def Let_def split: if_splits)
  from \<open>?L\<close> s obtain r2 where r1: "?r1 = CHR '' '' # r2"
    by (auto simp: client_regex_exec_def Let_def split: if_splits list.splits)
  let ?p = "takeWhile is_digit r2"
  let ?r3 = "dropWhile is_digit r2"
  from \<open>?L\<close> s r1 have p: "?p \<noteq> []"
    by (auto simp: client_regex_exec_def Let_def split: if_splits)
  from \<open>?L\<close> s r1 p obtain q where r3: "?r3 = CHR '' '' # DQUOTE # q"
    by (auto simp: client_regex_exec_def Let_def split: if_splits list.splits)
  from \<open>?L\<close> s r1 p r3 have q: "q \<noteq> []" "last q = DQUOTE" "butlast q \<noteq> []"
      "\<not> list_ex is_line_terminator (butlast q)"
    and c: "c = \<lparr>score = ?s, ping = ?p, name = butlast q\<rparr>"
    by (auto simp: client_regex_exec_def Let_def split: if_splits)
  have "line = ?s @ ?r1" by simp
  also have "?r1 = CHR '' '' # ?p @ ?r3" by (simp add: r1)
  also have "?r3 = CHR '' '' # DQUOTE # butlast q @ [DQUOTE]"
    using append_butlast_last_id [OF q(1)] q(2) by (simp add: r3)
  finally have "line = ?s @ CHR '' '' # ?p @ CHR '' '' # DQUOTE # butlast q @ [DQUOTE]" .
  moreover have "list_all is_digit ?s" "list_all is_digit ?p"
    by (auto simp: list_all_iff dest: set_takeWhileD)
  ultimately show ?R
    using s p q by (simp add: c)
next
  assume r: ?R
  let ?q = "name c @ [DQUOTE]"
  let ?r2 = "ping c @ CHR '' '' # DQUOTE # ?q"
  from r have line: "line = score c @ CHR '' '' # ?r2" by simp
  have 1: "takeWhile is_digit line = score c" "dropWhile is_digit line = CHR '' '' # ?r2"
    unfolding line using r not_digit_space by (simp_all add: digits_then_other)
  have 2: "takeWhile is_digit ?r2 = ping c" "dropWhile is_digit ?r2 = CHR '' '' # DQUOTE # ?q"
    using r not_digit_space by (simp_all add: digits_then_other)
  from r have facts: "score c \<noteq> []" "ping c \<noteq> []" "name c \<noteq> []"
      "\<not> list_ex is_line_terminator (name c)"
    by simp_all
  show ?L
    by (simp add: client_regex_exec_def Let_def 1 2 facts)
qed

lemma client_regex_exec_examples:
  "client_regex_exec player_line = Some \<lparr>score = ''12'', ping = ''55'', name = ''Player One''\<rparr>"
  "client_regex_exec malformed_line = None"
  by code_simp+

text \<open>
  The spec's example: the client line gives a record and the malformed line is skipped.
\<close>

lemma getstatus_example_reply:
  "cts_getstatus_reply True server_address ''jkutils-query''
     \<lparr>source = server_address, response = getstatus_example\<rparr>
   = Inr (server_address, parseInfostring getstatus_infostring,
          [\<lparr>score = ''12'', ping = ''55'', name = ''Player One''\<rparr>])"
proof -
  let ?m = getstatus_example
  have p0: "Q3MessageParser ?m True = Inr \<lparr>msg = ?m, offset = 4\<rparr>"
    unfolding getstatus_example_def by (simp add: Q3MessageParser_marker)
  have p1: "readLine \<lparr>msg = ?m, offset = 4\<rparr> = (''statusResponse'', \<lparr>msg = ?m, offset = 19\<rparr>)"
    by code_simp
  have p2: "readLine \<lparr>msg = ?m, offset = 19\<rparr> = (getstatus_infostring, \<lparr>msg = ?m, offset = 44\<rparr>)"
    by code_simp
  have p3: "parseInfostring getstatus_infostring ''challenge'' = Some ''jkutils-query''"
    by code_simp
  have p4: "fst (cts_getstatus_clients \<lparr>msg = ?m, offset = 44\<rparr> [])
              = [\<lparr>score = ''12'', ping = ''55'', name = ''Player One''\<rparr>]"
    by code_simp
  show ?thesis
    unfolding cts_getstatus_reply_def Let_def
    by (simp only: same_source if_False reply.simps p0 p1 p2 p3 p4 sum.case prod.case
          case_prod_beta fst_conv snd_conv simp_thms)
qed

text \<open>
  Claim C5 at a \<open>statusResponse\<close> with an empty line between the status infostring and
  the client line \<open>12 55 "Player One"\<close>, in strict mode and with the right challenge.
  The client line is a line of the message after the status line and matches the
  pattern, but the operation succeeds with no client record: \<open>readLine\<close> returns the
  empty string for the empty line, which ends the loop as the end of the message does.
\<close>

theorem cts_getstatus_stops_at_empty_line:
  "cts_getstatus_reply True server_address ''jkutils-query''
     \<lparr>source = server_address, response = getstatus_empty_line_example\<rparr>
     = Inr (server_address, parseInfostring getstatus_infostring, [])
   \<and> js_split (toString_ascii (drop 4 getstatus_empty_line_example)) LF
     = [''statusResponse'', getstatus_infostring, [], player_line, []]
   \<and> client_regex_exec player_line
     = Some \<lparr>score = ''12'', ping = ''55'', name = ''Player One''\<rparr>"
proof -
  let ?m = getstatus_empty_line_example
  have p0: "Q3MessageParser ?m True = Inr \<lparr>msg = ?m, offset = 4\<rparr>"
    unfolding getstatus_empty_line_example_def by (simp add: Q3MessageParser_marker)
  have p1: "readLine \<lparr>msg = ?m, offset = 4\<rparr> = (''statusResponse'', \<lparr>msg = ?m, offset = 19\<rparr>)"
    by code_simp
  have p2: "readLine \<lparr>msg = ?m, offset = 19\<rparr> = (getstatus_infostring, \<lparr>msg = ?m, offset = 44\<rparr>)"
    by code_simp
  have p3: "parseInfostring getstatus_infostring ''challenge'' = Some ''jkutils-query''"
    by code_simp
  have p4: "fst (cts_getstatus_clients \<lparr>msg = ?m, offset = 44\<rparr> []) = []"
    by code_simp
  have a: "cts_getstatus_reply True server_address ''jkutils-query''
             \<lparr>source = server_address, response = ?m\<rparr>
           = Inr (server_address, parseInfostring getstatus_infostring, [])"
    unfolding cts_getstatus_reply_def Let_def
    by (simp only: same_source if_False reply.simps p0 p1 p2 p3 p4 sum.case prod.case
          case_prod_beta fst_conv snd_conv simp_thms)
  have b: "js_split (toString_ascii (drop 4 ?m)) LF
             = [''statusResponse'', getstatus_infostring, [], player_line, []]"
    by code_simp
  show ?thesis
    using a b client_regex_exec_examples(1) by simp
qed

theorem cts_getstatus_stops_at_empty_line_witness:
  "\<exists>status.
      cts_getstatus_reply True server_address ''jkutils-query''
        \<lparr>source = server_address, response = getstatus_empty_line_example\<rparr>
        = Inr (server_address, status, [])
      \<and> player_line \<in> set (drop 2 (js_split (toString_ascii (drop 4 getstatus_empty_line_example)) LF))
      \<and> client_regex_exec player_line \<noteq> None"
  using cts_getstatus_stops_at_empty_line by simp

end
